theory Spec2Isabelle
  imports Main
begin

section \<open>The loader of rawmap.py: data model\<close>

text \<open>
  The module \<^verbatim>\<open>rawmap.py\<close> holds one class, \<^verbatim>\<open>Loader\<close>. Its constructor reads the first
  line of a save file, reformats it into a list of lines (\<^verbatim>\<open>_raw_map_to_list\<close>) and reads
  that list into nested Python lists and dicts (\<^verbatim>\<open>_map_reader\<close>).

  Python strings are modelled as \<^typ>\<open>string\<close>; a \<^typ>\<open>char\<close> stands for a code point
  below 256. Python's \<^verbatim>\<open>int\<close> is \<^typ>\<open>int\<close>. The builtin \<^verbatim>\<open>float\<close> is not modelled:
  its parser is a parameter \<open>fl\<close> of the reader (\<open>None\<close> is its \<^verbatim>\<open>ValueError\<close>), and the
  type of its results is the type parameter of the values. The two exceptions the code
  can raise are values of \<open>error\<close>.
\<close>

datatype error = IndexError | ValueError

text \<open>
  The values \<^verbatim>\<open>_map_reader\<close> builds: \<^verbatim>\<open>str\<close>, \<^verbatim>\<open>bool\<close>, \<^verbatim>\<open>int\<close>, \<^verbatim>\<open>float\<close>,
  \<^verbatim>\<open>list\<close> and \<^verbatim>\<open>dict\<close>. A dict is an association list in insertion order with unique
  keys (see \<open>dict_set\<close>); its keys are always strings.
\<close>

datatype 'f pyval =
    PStr string
  | PBool bool
  | PInt int
  | PFloat 'f
  | PList "'f pyval list"
  | PDict "(string \<times> 'f pyval) list"

text \<open>\<^verbatim>\<open>return_data[key] = data\<close>: an existing key keeps its place and takes the new value.\<close>

fun dict_set :: "(string \<times> 'v) list \<Rightarrow> string \<Rightarrow> 'v \<Rightarrow> (string \<times> 'v) list" where
  "dict_set [] k v = [(k, v)]"
| "dict_set ((k', v') # kvs) k v =
     (if k' = k then (k, v) # kvs else (k', v') # dict_set kvs k v)"

section \<open>Python string operations used by the loader\<close>

definition newline :: char where
  "newline = CHR 0x0A"

definition tab :: char where
  "tab = CHR 0x09"

definition dquote :: char where
  "dquote = CHR 0x22"

text \<open>\<^verbatim>\<open>str.isspace\<close> of one character, for the code points below 256.\<close>

definition isspace :: "char \<Rightarrow> bool" where
  "isspace c =
     (let n = (of_char c :: nat)
      in (9 \<le> n \<and> n \<le> 13) \<or> (28 \<le> n \<and> n \<le> 32) \<or> n = 133 \<or> n = 160)"

text \<open>\<^verbatim>\<open>s.strip()\<close> and \<^verbatim>\<open>s.rstrip(",")\<close>.\<close>

definition strip :: "string \<Rightarrow> string" where
  "strip s = rev (dropWhile isspace (rev (dropWhile isspace s)))"

definition rstrip_comma :: "string \<Rightarrow> string" where
  "rstrip_comma s = rev (dropWhile (\<lambda>c. c = CHR '','') (rev s))"

text \<open>
  \<^verbatim>\<open>s.split(sep)\<close> for a separator of one character: one piece more than there are
  separators, empty pieces kept. \<^verbatim>\<open>sep.join(parts)\<close> is its inverse.
\<close>

fun split_on :: "char \<Rightarrow> string \<Rightarrow> string list" where
  "split_on sep [] = [[]]"
| "split_on sep (c # cs) =
     (if c = sep then [] # split_on sep cs
      else (case split_on sep cs of
              [] \<Rightarrow> [[c]]
            | p # ps \<Rightarrow> (c # p) # ps))"

fun join :: "char \<Rightarrow> string list \<Rightarrow> string" where
  "join sep [] = []"
| "join sep [p] = p"
| "join sep (p # q # ps) = p @ sep # join sep (q # ps)"

text \<open>
  \<^verbatim>\<open>int(s)\<close> on a string, base 10: surrounding whitespace is dropped, one sign is
  allowed, then decimal digits, with single underscores allowed between digits. Anything
  else is a \<^verbatim>\<open>ValueError\<close>, here \<open>None\<close>. (The limit CPython 3.11 puts on the number of
  digits is not modelled.)
\<close>

definition isdigit :: "char \<Rightarrow> bool" where
  "isdigit c = (let n = (of_char c :: nat) in 48 \<le> n \<and> n \<le> 57)"

definition digit_val :: "char \<Rightarrow> nat" where
  "digit_val c = of_char c - 48"

fun int_digits :: "nat \<Rightarrow> string \<Rightarrow> nat option" where
  "int_digits acc [] = Some acc"
| "int_digits acc (c # cs) =
     (if isdigit c then int_digits (10 * acc + digit_val c) cs
      else if c = CHR ''_'' then
        (case cs of
           [] \<Rightarrow> None
         | d # ds \<Rightarrow> if isdigit d then int_digits (10 * acc + digit_val d) ds else None)
      else None)"

definition py_digits :: "string \<Rightarrow> nat option" where
  "py_digits s =
     (case s of
        [] \<Rightarrow> None
      | c # cs \<Rightarrow> if isdigit c then int_digits (digit_val c) cs else None)"

definition py_int :: "string \<Rightarrow> int option" where
  "py_int s =
     (case strip s of
        [] \<Rightarrow> None
      | c # cs \<Rightarrow>
          if c = CHR ''-'' then map_option (\<lambda>n. - int n) (py_digits cs)
          else if c = CHR ''+'' then map_option int (py_digits cs)
          else map_option int (py_digits (c # cs)))"

text \<open>\<^verbatim>\<open>"{}".format(n)\<close> for a natural number: its decimal digits.\<close>

fun str_nat :: "nat \<Rightarrow> string" where
  "str_nat n =
     (if n < 10 then [char_of (48 + n)]
      else str_nat (n div 10) @ [char_of (48 + n mod 10)])"

declare str_nat.simps [simp del]

text \<open>\<^verbatim>\<open>str(i)\<close> for an int: a minus sign for a negative number, then the digits.\<close>

definition str_int :: "int \<Rightarrow> string" where
  "str_int i = (if i < 0 then CHR ''-'' # str_nat (nat (- i)) else str_nat (nat i))"

section \<open>The preprocessor: \<^verbatim>\<open>_raw_map_to_list\<close>\<close>

text \<open>
  The state of the \<^verbatim>\<open>for ch in data\<close> loop: the characters emitted so far, the brace
  depth and the quote flag. \<^verbatim>\<open>"\t" * indents\<close> is empty for a negative \<^verbatim>\<open>indents\<close>.
  Writing the text to a file (\<^verbatim>\<open>write_to_file\<close>) does not change the returned list and is
  left out. The argument \<open>data\<close> is what \<^verbatim>\<open>readline\<close> returned.
\<close>

record pre_state =
  extended_map :: string
  indents :: int
  in_quote :: bool

definition tabs :: "int \<Rightarrow> string" where
  "tabs n = replicate (nat n) tab"

definition raw_map_step :: "pre_state \<Rightarrow> char \<Rightarrow> pre_state" where
  "raw_map_step s ch =
     (let s1 =
        (if ch = CHR ''{'' then
           s\<lparr>extended_map := extended_map s @ [ch] @ [newline] @ tabs (indents s + 1),
             indents := indents s + 1\<rparr>
         else if ch = CHR '','' then
           s\<lparr>extended_map := extended_map s @ [ch] @
                (if \<not> in_quote s then [newline] @ tabs (indents s) else [])\<rparr>
         else if ch = CHR ''}'' then
           s\<lparr>extended_map := extended_map s @ [newline] @ tabs (indents s - 1) @ [ch],
             indents := indents s - 1\<rparr>
         else
           s\<lparr>extended_map := extended_map s @ [ch]\<rparr>)
      in if ch = dquote then s1\<lparr>in_quote := \<not> in_quote s1\<rparr> else s1)"

definition pre_init :: pre_state where
  "pre_init = \<lparr>extended_map = [], indents = 0, in_quote = False\<rparr>"

definition raw_map_to_list :: "string \<Rightarrow> string list" where
  "raw_map_to_list data = split_on newline (extended_map (foldl raw_map_step pre_init data))"

section \<open>Type coercion: \<^verbatim>\<open>change_data_type\<close>\<close>

definition change_data_type :: "(string \<Rightarrow> 'f option) \<Rightarrow> string \<Rightarrow> error + 'f pyval" where
  "change_data_type fl data_string =
     (if data_string = [] then Inr (PStr [])
      else if data_string = ''true'' then Inr (PBool True)
      else if data_string = ''false'' then Inr (PBool False)
      else if dquote \<in> set data_string then Inr (PStr data_string)
      else if CHR ''.'' \<in> set data_string then
        (case fl data_string of None \<Rightarrow> Inl ValueError | Some x \<Rightarrow> Inr (PFloat x))
      else
        (case py_int data_string of None \<Rightarrow> Inl ValueError | Some n \<Rightarrow> Inr (PInt n)))"

section \<open>The structural reader: \<^verbatim>\<open>_map_reader\<close>\<close>

text \<open>
  The attributes of a \<^verbatim>\<open>Loader\<close> the reader uses, and what it prints. \<open>printed\<close> holds the
  lines printed so far. \<open>reads\<close> is a history variable: the index of every access
  \<^verbatim>\<open>self.parsed_map[self.counter]\<close>, in the order they happen. The program never reads it.
\<close>

record loader =
  parsed_map :: "string list"
  counter :: nat
  printed :: "string list"
  reads :: "nat list"

text \<open>
  \<^verbatim>\<open>get_next_line\<close>: the index is checked first (the counter is never negative, so the
  only failure is an \<^verbatim>\<open>IndexError\<close> past the end, raised before the counter changes).
\<close>

definition get_next_line :: "loader \<Rightarrow> (error + string) \<times> loader" where
  "get_next_line st =
     (if counter st < length (parsed_map st) then
        (Inr (rstrip_comma (strip (parsed_map st ! counter st))),
         st\<lparr>counter := counter st + 1, reads := reads st @ [counter st]\<rparr>)
      else (Inl IndexError, st))"

text \<open>
  The item with a dict like key (lines 148 to 153): the text before the first \<open>=\<close>, without
  its first and last character, read as an int; the padding; the new \<^verbatim>\<open>next_element\<close>.
\<close>

definition dict_like_key ::
  "string \<Rightarrow> 'f pyval list \<Rightarrow> int \<Rightarrow> error + ('f pyval list \<times> int)" where
  "dict_like_key line return_data next_element =
     (case py_int (butlast (tl (strip (hd (split_on CHR ''='' line))))) of
        None \<Rightarrow> Inl ValueError
      | Some data \<Rightarrow>
          Inr (return_data @ replicate (nat (data - next_element)) (PStr []), data + 1))"

definition unexpected_eof :: string where
  "unexpected_eof = ''Unexpected end of file''"

definition unhandled_line :: "string \<Rightarrow> nat \<Rightarrow> string list" where
  "unhandled_line line n =
     [''Unhandled line in a dictionary like logical part: '' @ line,
      ''It can be found at line number '' @ str_nat n @ ''.'']"

text \<open>
  One pass through the body of the first \<^verbatim>\<open>while\<close> loop (lines 144 to 161), up to the
  read of the next line. \<open>reader\<close> stands for \<^verbatim>\<open>self._map_reader\<close>: the loop gives it
  the reader with the fuel that is left. The result is the new \<^verbatim>\<open>return_data\<close> and
  \<^verbatim>\<open>next_element\<close>, or the exception.
\<close>

definition list_item ::
  "(string \<Rightarrow> 'f option) \<Rightarrow> (loader \<Rightarrow> ((error + 'f pyval) \<times> loader) option) \<Rightarrow> loader
     \<Rightarrow> string \<Rightarrow> 'f pyval list \<Rightarrow> int
     \<Rightarrow> ((error + ('f pyval list \<times> int)) \<times> loader) option" where
  "list_item fl reader st line return_data next_element =
     (if CHR ''{'' \<in> set line then
        (case (if CHR ''='' \<in> set line
               then dict_like_key line return_data next_element
               else Inr (return_data, next_element)) of
           Inl e \<Rightarrow> Some (Inl e, st)
         | Inr (rd, ne) \<Rightarrow>
             (case reader st of
                None \<Rightarrow> None
              | Some (Inl e, st1) \<Rightarrow> Some (Inl e, st1)
              | Some (Inr v, st1) \<Rightarrow> Some (Inr (rd @ [v], ne), st1)))
      else
        (case change_data_type fl line of
           Inl e \<Rightarrow> Some (Inl e, st)
         | Inr v \<Rightarrow> Some (Inr (return_data @ [v], next_element + 1), st)))"

text \<open>
  One pass through the body of the second \<^verbatim>\<open>while\<close> loop (lines 178 to 194). The two
  \<^verbatim>\<open>print\<close> calls of the \<^verbatim>\<open>else\<close> branch happen after the line was read, so they show the
  counter already advanced past the line.
\<close>

definition dict_item ::
  "(string \<Rightarrow> 'f option) \<Rightarrow> (loader \<Rightarrow> ((error + 'f pyval) \<times> loader) option) \<Rightarrow> loader
     \<Rightarrow> string \<Rightarrow> (string \<times> 'f pyval) list
     \<Rightarrow> ((error + (string \<times> 'f pyval) list) \<times> loader) option" where
  "dict_item fl reader st line return_data =
     (if CHR ''='' \<in> set line then
        (let parts = split_on CHR ''='' line;
             key = hd parts;
             data = join CHR ''='' (tl parts)
         in if data = ''{'' then
              (case reader st of
                 None \<Rightarrow> None
               | Some (Inl e, st1) \<Rightarrow> Some (Inl e, st1)
               | Some (Inr v, st1) \<Rightarrow> Some (Inr (dict_set return_data key v), st1))
            else
              (case change_data_type fl data of
                 Inl e \<Rightarrow> Some (Inl e, st)
               | Inr v \<Rightarrow> Some (Inr (dict_set return_data key v), st)))
      else
        Some (Inr return_data,
              st\<lparr>printed := printed st @ unhandled_line line (counter st)\<rparr>))"

text \<open>
  The reader calls itself inside its two \<^verbatim>\<open>while\<close> loops. The model is three functions:
  \<open>map_reader\<close> reads the first line and chooses the branch, \<open>list_loop\<close> and \<open>dict_loop\<close>
  are the loops, entered at their test with the current \<^verbatim>\<open>line\<close> and \<^verbatim>\<open>return_data\<close>
  (and \<^verbatim>\<open>next_element\<close>). The argument after \<open>fl\<close> is fuel, one unit for each call;
  \<open>None\<close> says the fuel ran out. \<open>map_reader_fuel_enough\<close> below shows how much is enough,
  and \<open>map_reader_fuel_independent\<close> that the result does not depend on it.
  A result is the exception or the value, with the state of the loader at that moment.
  The interpreter's limit on the depth of recursion is not modelled.
\<close>

fun map_reader ::
      "(string \<Rightarrow> 'f option) \<Rightarrow> nat \<Rightarrow> loader \<Rightarrow> ((error + 'f pyval) \<times> loader) option"
  and list_loop ::
      "(string \<Rightarrow> 'f option) \<Rightarrow> nat \<Rightarrow> loader \<Rightarrow> string \<Rightarrow> 'f pyval list \<Rightarrow> int
         \<Rightarrow> ((error + 'f pyval) \<times> loader) option"
  and dict_loop ::
      "(string \<Rightarrow> 'f option) \<Rightarrow> nat \<Rightarrow> loader \<Rightarrow> string \<Rightarrow> (string \<times> 'f pyval) list
         \<Rightarrow> ((error + 'f pyval) \<times> loader) option"
where
  "map_reader fl 0 st = None"
| "map_reader fl (Suc n) st =
     (case get_next_line st of
        (Inl e, st1) \<Rightarrow> Some (Inl e, st1)
      | (Inr line, st1) \<Rightarrow>
          if CHR ''='' \<notin> set line then list_loop fl n st1 line [] 0
          else dict_loop fl n st1 line [])"
| "list_loop fl 0 st line return_data next_element = None"
| "list_loop fl (Suc n) st line return_data next_element =
     (if CHR ''}'' \<in> set line then Some (Inr (PList return_data), st)
      else
        (case list_item fl (map_reader fl n) st line return_data next_element of
           None \<Rightarrow> None
         | Some (Inl e, st1) \<Rightarrow> Some (Inl e, st1)
         | Some (Inr (rd, ne), st1) \<Rightarrow>
             (case get_next_line st1 of
                (Inl e, st2) \<Rightarrow> Some (Inl e, st2)
              | (Inr line', st2) \<Rightarrow>
                  if line' = [] then
                    Some (Inr (PList []), st2\<lparr>printed := printed st2 @ [unexpected_eof]\<rparr>)
                  else list_loop fl n st2 line' rd ne)))"
| "dict_loop fl 0 st line return_data = None"
| "dict_loop fl (Suc n) st line return_data =
     (if CHR ''}'' \<in> set line then Some (Inr (PDict return_data), st)
      else
        (case dict_item fl (map_reader fl n) st line return_data of
           None \<Rightarrow> None
         | Some (Inl e, st1) \<Rightarrow> Some (Inl e, st1)
         | Some (Inr rd, st1) \<Rightarrow>
             (case get_next_line st1 of
                (Inl e, st2) \<Rightarrow> Some (Inl e, st2)
              | (Inr line', st2) \<Rightarrow> dict_loop fl n st2 line' rd)))"

text \<open>
  \<^verbatim>\<open>Loader.__init__\<close>: the counter starts at 1, so line 0 is never read. The fuel given
  is enough for every input (\<open>Loader_returns\<close>).
\<close>

definition loader_init :: "string \<Rightarrow> loader" where
  "loader_init data =
     \<lparr>parsed_map = raw_map_to_list data, counter = 1, printed = [], reads = []\<rparr>"

definition Loader ::
  "(string \<Rightarrow> 'f option) \<Rightarrow> string \<Rightarrow> ((error + 'f pyval) \<times> loader) option" where
  "Loader fl data =
     map_reader fl (2 * length (raw_map_to_list data) + 1) (loader_init data)"

section \<open>Notions used in the statements\<close>

text \<open>
  \<open>advanced st st'\<close>: from \<open>st\<close> to \<open>st'\<close> the line list is the same, the counter has not
  gone back and has not passed the end of the list, and the accesses made in between are
  those of the indices from the old counter up to the new one, each once, in order.
\<close>

definition advanced :: "loader \<Rightarrow> loader \<Rightarrow> bool" where
  "advanced st st' =
     (parsed_map st' = parsed_map st \<and> counter st \<le> counter st' \<and>
      (counter st' \<le> length (parsed_map st) \<or> counter st' = counter st) \<and>
      reads st' = reads st @ [counter st ..< counter st'])"

text \<open>The line just before the counter, as \<^verbatim>\<open>get_next_line\<close> returns it.\<close>

definition last_line :: "loader \<Rightarrow> string" where
  "last_line st = rstrip_comma (strip (parsed_map st ! (counter st - 1)))"

text \<open>
  The two ways a unit ends: on a line with the closing brace, or (first loop only) on an
  empty line, with the message printed and the empty list returned.
\<close>

definition unit_end :: "loader \<Rightarrow> 'f pyval \<Rightarrow> bool" where
  "unit_end st v =
     (CHR ''}'' \<in> set (last_line st) \<or>
      (last_line st = [] \<and> v = PList [] \<and> printed st \<noteq> [] \<and>
       last (printed st) = unexpected_eof))"

text \<open>
  A stand-in for \<^verbatim>\<open>float\<close> in closed statements whose inputs hold no dot, where \<^verbatim>\<open>float\<close>
  is never called.
\<close>

definition no_float :: "string \<Rightarrow> unit option" where
  "no_float s = None"

text \<open>
  The characters of a text that start a new line in the preprocessor's output, as the rules
  of the preprocessor give them: an opening or closing brace, a line break already in the
  text, and a comma met while the quote flag \<open>q\<close> is off. The flag flips at each double
  quote.
\<close>

fun line_breaks :: "bool \<Rightarrow> string \<Rightarrow> nat" where
  "line_breaks q [] = 0"
| "line_breaks q (c # cs) =
     (if c = CHR ''{'' \<or> c = CHR ''}'' \<or> c = newline \<or> (c = CHR '','' \<and> \<not> q) then 1 else 0) +
     line_breaks (if c = dquote then \<not> q else q) cs"

section \<open>Reading one line\<close>

lemma get_next_line_Inr:
  "get_next_line st = (Inr l, st') \<Longrightarrow>
     counter st < length (parsed_map st) \<and>
     l = rstrip_comma (strip (parsed_map st ! counter st)) \<and>
     st' = st\<lparr>counter := counter st + 1, reads := reads st @ [counter st]\<rparr>"
  by (simp add: get_next_line_def split: if_splits)

lemma get_next_line_Inl:
  "get_next_line st = (Inl e, st') \<Longrightarrow>
     e = IndexError \<and> st' = st \<and> length (parsed_map st) \<le> counter st"
  by (simp add: get_next_line_def split: if_splits)

lemma get_next_line_last_line:
  "get_next_line st = (Inr l, st') \<Longrightarrow> last_line st' = l"
  by (auto simp: get_next_line_def last_line_def split: if_splits)

lemma upt_split: "i \<le> j \<Longrightarrow> j \<le> k \<Longrightarrow> [i..<j] @ [j..<k] = [i..<k]"
  using upt_add_eq_append [of i j "k - j"] by simp

lemma advanced_refl: "advanced st st"
  by (simp add: advanced_def)

lemma advanced_trans: "advanced a b \<Longrightarrow> advanced b c \<Longrightarrow> advanced a c"
  unfolding advanced_def by (auto simp: upt_split)

lemma advanced_printed: "advanced st (st'\<lparr>printed := p\<rparr>) = advanced st st'"
  by (simp add: advanced_def)

lemma advanced_get_next_line: "get_next_line st = (r, st') \<Longrightarrow> advanced st st'"
  by (auto simp: get_next_line_def advanced_def split: if_splits)

section \<open>The cases of one call of the reader and of one pass of its loops\<close>

lemma map_reader_SucE:
  assumes "map_reader fl (Suc n) st = Some (r, st')"
  obtains (index_error) "get_next_line st = (Inl IndexError, st')" "r = Inl IndexError" "st' = st"
  | (list_unit) line st1 where "get_next_line st = (Inr line, st1)" "CHR ''='' \<notin> set line"
      "list_loop fl n st1 line [] 0 = Some (r, st')"
  | (dict_unit) line st1 where "get_next_line st = (Inr line, st1)" "CHR ''='' \<in> set line"
      "dict_loop fl n st1 line [] = Some (r, st')"
  using assms
  by (auto simp: get_next_line_def split: if_splits)

lemma list_loop_SucE:
  assumes "list_loop fl (Suc n) st line rd ne = Some (r, st')"
  obtains (closed) "CHR ''}'' \<in> set line" "r = Inr (PList rd)" "st' = st"
  | (item_raises) e where "CHR ''}'' \<notin> set line"
      "list_item fl (map_reader fl n) st line rd ne = Some (Inl e, st')" "r = Inl e"
  | (index_error) rd1 ne1 st1 where "CHR ''}'' \<notin> set line"
      "list_item fl (map_reader fl n) st line rd ne = Some (Inr (rd1, ne1), st1)"
      "get_next_line st1 = (Inl IndexError, st')" "r = Inl IndexError"
  | (aborted) rd1 ne1 st1 st2 where "CHR ''}'' \<notin> set line"
      "list_item fl (map_reader fl n) st line rd ne = Some (Inr (rd1, ne1), st1)"
      "get_next_line st1 = (Inr [], st2)" "r = Inr (PList [])"
      "st' = st2\<lparr>printed := printed st2 @ [unexpected_eof]\<rparr>"
  | (continued) rd1 ne1 st1 line' st2 where "CHR ''}'' \<notin> set line"
      "list_item fl (map_reader fl n) st line rd ne = Some (Inr (rd1, ne1), st1)"
      "get_next_line st1 = (Inr line', st2)" "line' \<noteq> []"
      "list_loop fl n st2 line' rd1 ne1 = Some (r, st')"
proof (cases "CHR ''}'' \<in> set line")
  case True
  with assms closed show ?thesis by simp
next
  case False
  show ?thesis
  proof (cases "list_item fl (map_reader fl n) st line rd ne")
    case None
    with assms False show ?thesis by simp
  next
    case (Some x)
    obtain a st1 where x: "x = (a, st1)" by (cases x)
    show ?thesis
    proof (cases a)
      case (Inl e)
      with assms False Some x item_raises show ?thesis by simp
    next
      case (Inr b)
      obtain rd1 ne1 where b: "b = (rd1, ne1)" by (cases b)
      obtain g st2 where g: "get_next_line st1 = (g, st2)" by (cases "get_next_line st1")
      show ?thesis
      proof (cases g)
        case (Inl e)
        with g have "e = IndexError" by (simp add: get_next_line_def split: if_splits)
        with assms False Some x Inr b g Inl index_error show ?thesis by simp
      next
        case (Inr line')
        with assms False Some x \<open>a = Inr b\<close> b g aborted continued show ?thesis
          by (cases "line' = []") simp_all
      qed
    qed
  qed
qed

lemma dict_loop_SucE:
  assumes "dict_loop fl (Suc n) st line rd = Some (r, st')"
  obtains (closed) "CHR ''}'' \<in> set line" "r = Inr (PDict rd)" "st' = st"
  | (item_raises) e where "CHR ''}'' \<notin> set line"
      "dict_item fl (map_reader fl n) st line rd = Some (Inl e, st')" "r = Inl e"
  | (index_error) rd1 st1 where "CHR ''}'' \<notin> set line"
      "dict_item fl (map_reader fl n) st line rd = Some (Inr rd1, st1)"
      "get_next_line st1 = (Inl IndexError, st')" "r = Inl IndexError"
  | (continued) rd1 st1 line' st2 where "CHR ''}'' \<notin> set line"
      "dict_item fl (map_reader fl n) st line rd = Some (Inr rd1, st1)"
      "get_next_line st1 = (Inr line', st2)"
      "dict_loop fl n st2 line' rd1 = Some (r, st')"
proof (cases "CHR ''}'' \<in> set line")
  case True
  with assms closed show ?thesis by simp
next
  case False
  show ?thesis
  proof (cases "dict_item fl (map_reader fl n) st line rd")
    case None
    with assms False show ?thesis by simp
  next
    case (Some x)
    obtain a st1 where x: "x = (a, st1)" by (cases x)
    show ?thesis
    proof (cases a)
      case (Inl e)
      with assms False Some x item_raises show ?thesis by simp
    next
      case (Inr rd1)
      obtain g st2 where g: "get_next_line st1 = (g, st2)" by (cases "get_next_line st1")
      show ?thesis
      proof (cases g)
        case (Inl e)
        with g have "e = IndexError" by (simp add: get_next_line_def split: if_splits)
        with assms False Some x Inr g Inl index_error show ?thesis by simp
      next
        case (Inr line')
        with assms False Some x \<open>a = Inr rd1\<close> g continued show ?thesis by simp
      qed
    qed
  qed
qed

lemma list_item_advanced:
  assumes "\<And>r s'. reader st = Some (r, s') \<Longrightarrow> advanced st s'"
    and "list_item fl reader st line rd ne = Some (r, st1)"
  shows "advanced st st1"
  using assms
  by (auto simp: list_item_def advanced_refl split: if_splits sum.splits option.splits prod.splits)

lemma dict_item_advanced:
  assumes "\<And>r s'. reader st = Some (r, s') \<Longrightarrow> advanced st s'"
    and "dict_item fl reader st line rd = Some (r, st1)"
  shows "advanced st st1"
  using assms
  by (auto simp: dict_item_def Let_def advanced_refl advanced_printed
      split: if_splits sum.splits option.splits prod.splits)

lemma reader_advanced_all:
  "(\<forall>st r st'. map_reader fl n st = Some (r, st') \<longrightarrow> advanced st st') \<and>
   (\<forall>st line rd ne r st'. list_loop fl n st line rd ne = Some (r, st') \<longrightarrow> advanced st st') \<and>
   (\<forall>st line rd r st'. dict_loop fl n st line rd = Some (r, st') \<longrightarrow> advanced st st')"
proof (induction n)
  case 0
  show ?case by simp
next
  case (Suc n)
  then have rd: "\<And>st r st'. map_reader fl n st = Some (r, st') \<Longrightarrow> advanced st st'"
    and ll: "\<And>st line rd ne r st'. list_loop fl n st line rd ne = Some (r, st') \<Longrightarrow> advanced st st'"
    and dl: "\<And>st line rd r st'. dict_loop fl n st line rd = Some (r, st') \<Longrightarrow> advanced st st'"
    by blast+
  have m: "advanced st st'" if "map_reader fl (Suc n) st = Some (r, st')" for st r st'
    using that
  proof (cases rule: map_reader_SucE)
    case index_error
    then show ?thesis by (simp add: advanced_refl)
  next
    case (list_unit line st1)
    from advanced_get_next_line [OF list_unit(1)] ll [OF list_unit(3)]
    show ?thesis by (rule advanced_trans)
  next
    case (dict_unit line st1)
    from advanced_get_next_line [OF dict_unit(1)] dl [OF dict_unit(3)]
    show ?thesis by (rule advanced_trans)
  qed
  have l: "advanced st st'" if "list_loop fl (Suc n) st line rd ne = Some (r, st')"
    for st line rd ne r st'
    using that
  proof (cases rule: list_loop_SucE)
    case closed
    then show ?thesis by (simp add: advanced_refl)
  next
    case (item_raises e)
    from list_item_advanced [OF rd item_raises(2)] show ?thesis .
  next
    case (index_error rd1 ne1 st1)
    from list_item_advanced [OF rd index_error(2)] advanced_get_next_line [OF index_error(3)]
    show ?thesis by (rule advanced_trans)
  next
    case (aborted rd1 ne1 st1 st2)
    from list_item_advanced [OF rd aborted(2)] advanced_get_next_line [OF aborted(3)]
    have "advanced st st2" by (rule advanced_trans)
    with aborted(5) show ?thesis by (simp add: advanced_printed)
  next
    case (continued rd1 ne1 st1 line' st2)
    from list_item_advanced [OF rd continued(2)] advanced_get_next_line [OF continued(3)]
    have "advanced st st2" by (rule advanced_trans)
    from this ll [OF continued(5)] show ?thesis by (rule advanced_trans)
  qed
  have d: "advanced st st'" if "dict_loop fl (Suc n) st line rd = Some (r, st')"
    for st line rd r st'
    using that
  proof (cases rule: dict_loop_SucE)
    case closed
    then show ?thesis by (simp add: advanced_refl)
  next
    case (item_raises e)
    from dict_item_advanced [OF rd item_raises(2)] show ?thesis .
  next
    case (index_error rd1 st1)
    from dict_item_advanced [OF rd index_error(2)] advanced_get_next_line [OF index_error(3)]
    show ?thesis by (rule advanced_trans)
  next
    case (continued rd1 st1 line' st2)
    from dict_item_advanced [OF rd continued(2)] advanced_get_next_line [OF continued(3)]
    have "advanced st st2" by (rule advanced_trans)
    from this dl [OF continued(4)] show ?thesis by (rule advanced_trans)
  qed
  from m l d show ?case by blast
qed

lemma map_reader_advanced: "map_reader fl n st = Some (r, st') \<Longrightarrow> advanced st st'"
  using reader_advanced_all by blast

lemma list_loop_advanced: "list_loop fl n st line rd ne = Some (r, st') \<Longrightarrow> advanced st st'"
  using reader_advanced_all by blast

lemma dict_loop_advanced: "dict_loop fl n st line rd = Some (r, st') \<Longrightarrow> advanced st st'"
  using reader_advanced_all by blast

section \<open>The fuel is enough\<close>

lemma list_item_returns:
  "reader st \<noteq> None \<Longrightarrow> list_item fl reader st line rd ne \<noteq> None"
  by (auto simp: list_item_def split: sum.splits option.splits prod.splits)

lemma dict_item_returns:
  "reader st \<noteq> None \<Longrightarrow> dict_item fl reader st line rd \<noteq> None"
  by (auto simp: dict_item_def Let_def split: sum.splits option.splits prod.splits)

lemma list_item_advanced_reader:
  "list_item fl (map_reader fl n) st line rd ne = Some (r, st1) \<Longrightarrow> advanced st st1"
  by (rule list_item_advanced [OF map_reader_advanced])

lemma dict_item_advanced_reader:
  "dict_item fl (map_reader fl n) st line rd = Some (r, st1) \<Longrightarrow> advanced st st1"
  by (rule dict_item_advanced [OF map_reader_advanced])

lemma next_line_fuel:
  assumes "advanced st st1" and "get_next_line st1 = (Inr l, st2)"
    and "2 * (length (parsed_map st) - counter st) + 2 \<le> Suc n"
  shows "2 * (length (parsed_map st2) - counter st2) + 2 \<le> n"
  using assms get_next_line_Inr [OF assms(2)]
  by (auto simp: advanced_def)

lemma reader_fuel_enough_all:
  "(\<forall>st. 2 * (length (parsed_map st) - counter st) + 1 \<le> n \<longrightarrow>
      map_reader fl n st \<noteq> None) \<and>
   (\<forall>st line rd ne. 2 * (length (parsed_map st) - counter st) + 2 \<le> n \<longrightarrow>
      list_loop fl n st line rd ne \<noteq> None) \<and>
   (\<forall>st line rd. 2 * (length (parsed_map st) - counter st) + 2 \<le> n \<longrightarrow>
      dict_loop fl n st line rd \<noteq> None)"
proof (induction n)
  case 0
  show ?case by simp
next
  case (Suc n)
  then have rd: "\<And>st. 2 * (length (parsed_map st) - counter st) + 1 \<le> n \<Longrightarrow>
        map_reader fl n st \<noteq> None"
    and ll: "\<And>st line rd ne. 2 * (length (parsed_map st) - counter st) + 2 \<le> n \<Longrightarrow>
        list_loop fl n st line rd ne \<noteq> None"
    and dl: "\<And>st line rd. 2 * (length (parsed_map st) - counter st) + 2 \<le> n \<Longrightarrow>
        dict_loop fl n st line rd \<noteq> None"
    by blast+
  have m: "map_reader fl (Suc n) st \<noteq> None"
    if f: "2 * (length (parsed_map st) - counter st) + 1 \<le> Suc n" for st
  proof (cases "get_next_line st")
    case (Pair a st1)
    show ?thesis
    proof (cases a)
      case (Inl e)
      with Pair show ?thesis by simp
    next
      case (Inr line)
      with Pair get_next_line_Inr [of st line st1] f
      have "2 * (length (parsed_map st1) - counter st1) + 2 \<le> n" by auto
      with ll [of st1 line "[]" 0] dl [of st1 line "[]"] Pair Inr show ?thesis by simp
    qed
  qed
  have l: "list_loop fl (Suc n) st line rd ne \<noteq> None"
    if f: "2 * (length (parsed_map st) - counter st) + 2 \<le> Suc n" for st line rd ne
  proof (cases "CHR ''}'' \<in> set line")
    case True
    then show ?thesis by simp
  next
    case False
    from f have "map_reader fl n st \<noteq> None" by (intro rd) simp
    then obtain a st1 where it: "list_item fl (map_reader fl n) st line rd ne = Some (a, st1)"
      using list_item_returns [of "map_reader fl n" st fl line rd ne] by fastforce
    note adv = list_item_advanced_reader [OF it]
    show ?thesis
    proof (cases a)
      case (Inl e)
      with False it show ?thesis by simp
    next
      case (Inr b)
      obtain rd1 ne1 where b: "b = (rd1, ne1)" by (cases b)
      obtain g st2 where g: "get_next_line st1 = (g, st2)" by (cases "get_next_line st1")
      show ?thesis
      proof (cases g)
        case (Inl e)
        with False it Inr b g show ?thesis by simp
      next
        case (Inr line')
        with g next_line_fuel [OF adv _ f, of line' st2]
        have "list_loop fl n st2 line' rd1 ne1 \<noteq> None" by (intro ll) simp
        with False it \<open>a = Inr b\<close> b g Inr show ?thesis by simp
      qed
    qed
  qed
  have d: "dict_loop fl (Suc n) st line rd \<noteq> None"
    if f: "2 * (length (parsed_map st) - counter st) + 2 \<le> Suc n" for st line rd
  proof (cases "CHR ''}'' \<in> set line")
    case True
    then show ?thesis by simp
  next
    case False
    from f have "map_reader fl n st \<noteq> None" by (intro rd) simp
    then obtain a st1 where it: "dict_item fl (map_reader fl n) st line rd = Some (a, st1)"
      using dict_item_returns [of "map_reader fl n" st fl line rd] by fastforce
    note adv = dict_item_advanced_reader [OF it]
    show ?thesis
    proof (cases a)
      case (Inl e)
      with False it show ?thesis by simp
    next
      case (Inr rd1)
      obtain g st2 where g: "get_next_line st1 = (g, st2)" by (cases "get_next_line st1")
      show ?thesis
      proof (cases g)
        case (Inl e)
        with False it Inr g show ?thesis by simp
      next
        case (Inr line')
        with g next_line_fuel [OF adv _ f, of line' st2]
        have "dict_loop fl n st2 line' rd1 \<noteq> None" by (intro dl) simp
        with False it \<open>a = Inr rd1\<close> g Inr show ?thesis by simp
      qed
    qed
  qed
  from m l d show ?case by blast
qed

lemma map_reader_fuel_enough:
  "2 * (length (parsed_map st) - counter st) + 1 \<le> n \<Longrightarrow> \<exists>r st'. map_reader fl n st = Some (r, st')"
  using reader_fuel_enough_all [of n fl] by fastforce

lemma Loader_returns: "\<exists>r st'. Loader fl data = Some (r, st')"
  unfolding Loader_def
  by (rule map_reader_fuel_enough) (simp add: loader_init_def)

section \<open>More fuel changes nothing\<close>

lemma list_item_mono:
  assumes "\<And>r. reader st = Some r \<Longrightarrow> reader' st = Some r"
    and "list_item fl reader st line rd ne = Some x"
  shows "list_item fl reader' st line rd ne = Some x"
  using assms
  by (auto simp: list_item_def split: if_splits sum.splits option.splits prod.splits)

lemma dict_item_mono:
  assumes "\<And>r. reader st = Some r \<Longrightarrow> reader' st = Some r"
    and "dict_item fl reader st line rd = Some x"
  shows "dict_item fl reader' st line rd = Some x"
  using assms
  by (auto simp: dict_item_def Let_def split: if_splits sum.splits option.splits prod.splits)

lemma reader_fuel_Suc_all:
  "(\<forall>st r. map_reader fl n st = Some r \<longrightarrow> map_reader fl (Suc n) st = Some r) \<and>
   (\<forall>st line rd ne r. list_loop fl n st line rd ne = Some r \<longrightarrow>
      list_loop fl (Suc n) st line rd ne = Some r) \<and>
   (\<forall>st line rd r. dict_loop fl n st line rd = Some r \<longrightarrow>
      dict_loop fl (Suc n) st line rd = Some r)"
proof (induction n)
  case 0
  show ?case by simp
next
  case (Suc n)
  then have rd: "\<And>st r. map_reader fl n st = Some r \<Longrightarrow> map_reader fl (Suc n) st = Some r"
    and ll: "\<And>st line rd ne r. list_loop fl n st line rd ne = Some r \<Longrightarrow>
        list_loop fl (Suc n) st line rd ne = Some r"
    and dl: "\<And>st line rd r. dict_loop fl n st line rd = Some r \<Longrightarrow>
        dict_loop fl (Suc n) st line rd = Some r"
    by blast+
  have m: "map_reader fl (Suc (Suc n)) st = Some r" if "map_reader fl (Suc n) st = Some r" for st r
  proof -
    obtain a b where r: "r = (a, b)" by (cases r)
    from that [unfolded r] show ?thesis unfolding r
    proof (cases rule: map_reader_SucE)
      case index_error
      then show "map_reader fl (Suc (Suc n)) st = Some (a, b)" by simp
    next
      case (list_unit line st1)
      with ll [OF list_unit(3)] show "map_reader fl (Suc (Suc n)) st = Some (a, b)" by simp
    next
      case (dict_unit line st1)
      with dl [OF dict_unit(3)] show "map_reader fl (Suc (Suc n)) st = Some (a, b)" by simp
    qed
  qed
  have l: "list_loop fl (Suc (Suc n)) st line rd ne = Some r"
    if "list_loop fl (Suc n) st line rd ne = Some r" for st line rd ne r
  proof -
    obtain a b where r: "r = (a, b)" by (cases r)
    from that [unfolded r] show ?thesis unfolding r
    proof (cases rule: list_loop_SucE)
      case closed
      then show "list_loop fl (Suc (Suc n)) st line rd ne = Some (a, b)" by simp
    next
      case (item_raises e)
      with list_item_mono [where reader = "map_reader fl n" and reader' = "map_reader fl (Suc n)", OF rd item_raises(2)]
      show "list_loop fl (Suc (Suc n)) st line rd ne = Some (a, b)" by simp
    next
      case (index_error rd1 ne1 st1)
      with list_item_mono [where reader = "map_reader fl n" and reader' = "map_reader fl (Suc n)", OF rd index_error(2)]
      show "list_loop fl (Suc (Suc n)) st line rd ne = Some (a, b)" by simp
    next
      case (aborted rd1 ne1 st1 st2)
      with list_item_mono [where reader = "map_reader fl n" and reader' = "map_reader fl (Suc n)", OF rd aborted(2)]
      show "list_loop fl (Suc (Suc n)) st line rd ne = Some (a, b)" by simp
    next
      case (continued rd1 ne1 st1 line' st2)
      with list_item_mono [where reader = "map_reader fl n" and reader' = "map_reader fl (Suc n)", OF rd continued(2)] ll [OF continued(5)]
      show "list_loop fl (Suc (Suc n)) st line rd ne = Some (a, b)" by simp
    qed
  qed
  have d: "dict_loop fl (Suc (Suc n)) st line rd = Some r"
    if "dict_loop fl (Suc n) st line rd = Some r" for st line rd r
  proof -
    obtain a b where r: "r = (a, b)" by (cases r)
    from that [unfolded r] show ?thesis unfolding r
    proof (cases rule: dict_loop_SucE)
      case closed
      then show "dict_loop fl (Suc (Suc n)) st line rd = Some (a, b)" by simp
    next
      case (item_raises e)
      with dict_item_mono [where reader = "map_reader fl n" and reader' = "map_reader fl (Suc n)", OF rd item_raises(2)]
      show "dict_loop fl (Suc (Suc n)) st line rd = Some (a, b)" by simp
    next
      case (index_error rd1 st1)
      with dict_item_mono [where reader = "map_reader fl n" and reader' = "map_reader fl (Suc n)", OF rd index_error(2)]
      show "dict_loop fl (Suc (Suc n)) st line rd = Some (a, b)" by simp
    next
      case (continued rd1 st1 line' st2)
      with dict_item_mono [where reader = "map_reader fl n" and reader' = "map_reader fl (Suc n)", OF rd continued(2)] dl [OF continued(4)]
      show "dict_loop fl (Suc (Suc n)) st line rd = Some (a, b)" by simp
    qed
  qed
  from m l d show ?case by blast
qed

lemma map_reader_more_fuel:
  "map_reader fl n st = Some r \<Longrightarrow> map_reader fl (n + k) st = Some r"
proof (induction k)
  case 0
  then show ?case by simp
next
  case (Suc k)
  then have "map_reader fl (n + k) st = Some r" by simp
  with reader_fuel_Suc_all [of fl "n + k"] have "map_reader fl (Suc (n + k)) st = Some r"
    by blast
  then show ?case by (simp only: add_Suc_right)
qed

lemma map_reader_fuel_independent:
  assumes "map_reader fl n st = Some r" and "map_reader fl m st = Some r'"
  shows "r = r'"
proof (cases "n \<le> m")
  case True
  with map_reader_more_fuel [OF assms(1), of "m - n"] assms(2) show ?thesis by simp
next
  case False
  with map_reader_more_fuel [OF assms(2), of "n - m"] assms(1) show ?thesis by simp
qed

section \<open>How a unit ends\<close>

lemma last_line_printed: "last_line (st\<lparr>printed := p\<rparr>) = last_line st"
  by (simp add: last_line_def)

lemma loops_unit_end_all:
  "(\<forall>st line rd ne v st'. list_loop fl n st line rd ne = Some (Inr v, st') \<longrightarrow>
      line = last_line st \<longrightarrow> unit_end st' v) \<and>
   (\<forall>st line rd v st'. dict_loop fl n st line rd = Some (Inr v, st') \<longrightarrow>
      line = last_line st \<longrightarrow> CHR ''}'' \<in> set (last_line st'))"
proof (induction n)
  case 0
  show ?case by simp
next
  case (Suc n)
  then have ll: "\<And>st line rd ne v st'. list_loop fl n st line rd ne = Some (Inr v, st') \<Longrightarrow>
        line = last_line st \<Longrightarrow> unit_end st' v"
    and dl: "\<And>st line rd v st'. dict_loop fl n st line rd = Some (Inr v, st') \<Longrightarrow>
        line = last_line st \<Longrightarrow> CHR ''}'' \<in> set (last_line st')"
    by blast+
  have l: "unit_end st' v"
    if "list_loop fl (Suc n) st line rd ne = Some (Inr v, st')" and "line = last_line st"
    for st line rd ne v st'
    using that(1)
  proof (cases rule: list_loop_SucE)
    case closed
    with that(2) show ?thesis by (simp add: unit_end_def)
  next
    case (item_raises e)
    then show ?thesis by simp
  next
    case (index_error rd1 ne1 st1)
    then show ?thesis by simp
  next
    case (aborted rd1 ne1 st1 st2)
    with get_next_line_last_line [OF aborted(3)] show ?thesis
      by (simp add: unit_end_def last_line_printed)
  next
    case (continued rd1 ne1 st1 line' st2)
    from ll [OF continued(5)] get_next_line_last_line [OF continued(3)]
    show ?thesis by simp
  qed
  have d: "CHR ''}'' \<in> set (last_line st')"
    if "dict_loop fl (Suc n) st line rd = Some (Inr v, st')" and "line = last_line st"
    for st line rd v st'
    using that(1)
  proof (cases rule: dict_loop_SucE)
    case closed
    with that(2) show ?thesis by simp
  next
    case (item_raises e)
    then show ?thesis by simp
  next
    case (index_error rd1 st1)
    then show ?thesis by simp
  next
    case (continued rd1 st1 line' st2)
    from dl [OF continued(4)] get_next_line_last_line [OF continued(3)]
    show ?thesis by simp
  qed
  from l d show ?case by blast
qed

lemma map_reader_unit_end:
  assumes "map_reader fl n st = Some (Inr v, st')"
  shows "counter st < counter st' \<and> unit_end st' v"
proof (cases n)
  case 0
  with assms show ?thesis by simp
next
  case (Suc m)
  from assms [unfolded Suc] show ?thesis
  proof (cases rule: map_reader_SucE)
    case index_error
    then show ?thesis by simp
  next
    case (list_unit line st1)
    from list_loop_advanced [OF list_unit(3)] get_next_line_Inr [OF list_unit(1)]
    have c: "counter st < counter st'" by (auto simp: advanced_def)
    from loops_unit_end_all [of fl m] list_unit(3) get_next_line_last_line [OF list_unit(1)]
    have u: "unit_end st' v" by blast
    with c show ?thesis by simp
  next
    case (dict_unit line st1)
    from dict_loop_advanced [OF dict_unit(3)] get_next_line_Inr [OF dict_unit(1)]
    have c: "counter st < counter st'" by (auto simp: advanced_def)
    from loops_unit_end_all [of fl m] dict_unit(3) get_next_line_last_line [OF dict_unit(1)]
    have "CHR ''}'' \<in> set (last_line st')" by blast
    with c show ?thesis by (simp add: unit_end_def)
  qed
qed

section \<open>Running the loader on a given text\<close>

text \<open>
  The equations of the reader for a fuel written as a numeral, and the definitions a run
  unfolds. With them the simplifier runs the loader on a given text.
\<close>

lemmas map_reader_numeral = map_reader.simps(2) [of _ "pred_numeral k", folded numeral_eq_Suc] for k
lemmas list_loop_numeral = list_loop.simps(2) [of _ "pred_numeral k", folded numeral_eq_Suc] for k
lemmas dict_loop_numeral = dict_loop.simps(2) [of _ "pred_numeral k", folded numeral_eq_Suc] for k

lemma replicate_numeral: "replicate (numeral k) x = x # replicate (pred_numeral k) x"
  by (simp add: numeral_eq_Suc)

lemmas pre_eval =
  raw_map_to_list_def pre_init_def raw_map_step_def newline_def tab_def tabs_def dquote_def
  replicate_numeral

lemmas reader_eval =
  Loader_def loader_init_def map_reader_numeral list_loop_numeral dict_loop_numeral
  get_next_line_def list_item_def dict_item_def dict_like_key_def change_data_type_def
  strip_def rstrip_comma_def isspace_def py_int_def py_digits_def isdigit_def digit_val_def
  unexpected_eof_def unhandled_line_def

text \<open>The digits that the printed line numbers below need.\<close>

lemma char_of_51: "char_of (51 :: nat) = CHR ''3''"
  by code_simp

lemma char_of_53: "char_of (53 :: nat) = CHR ''5''"
  by code_simp

text \<open>
  The bracketed index is honoured when the item is a nested unit: two placeholders, then
  the nested list, at index 4.
\<close>

lemma sparse_index_nested_unit:
  "Loader fl ''{1,2,[4]={5}}'' =
     Some (Inr (PList [PInt 1, PInt 2, PStr [], PStr [], PList [PInt 5]]),
           \<lparr>parsed_map = raw_map_to_list ''{1,2,[4]={5}}'', counter = 7, printed = [],
              reads = [1, 2, 3, 4, 5, 6]\<rparr>)"
  by (simp add: pre_eval reader_eval)

lemma nested_units:
  "Loader fl ''{a={1,2},b={x=1}}'' =
     Some (Inr (PDict [(''a'', PList [PInt 1, PInt 2]), (''b'', PDict [(''x'', PInt 1)])]),
           \<lparr>parsed_map = raw_map_to_list ''{a={1,2},b={x=1}}'', counter = 9, printed = [],
              reads = [1, 2, 3, 4, 5, 6, 7, 8]\<rparr>)"
  by (simp add: pre_eval reader_eval)

section \<open>Claims about sparse indices\<close>

text \<open>
  C1. The claim: the text \<^verbatim>\<open>{1,2,[4]=5}\<close> is read as the list 1, 2, two empty strings, 5.
  The code does not do that: the line \<^verbatim>\<open>[4]=5\<close> holds no opening brace, so it goes to the
  scalar branch, where \<^verbatim>\<open>int("[4]=5")\<close> raises \<^verbatim>\<open>ValueError\<close>, after three lines were read.
\<close>

theorem C1_indexed_scalar_raises:
  "Loader fl ''{1,2,[4]=5}'' =
     Some (Inl ValueError,
           \<lparr>parsed_map = raw_map_to_list ''{1,2,[4]=5}'', counter = 4, printed = [],
              reads = [1, 2, 3]\<rparr>)"
  by (simp add: pre_eval reader_eval)

text \<open>
  What one pass does to \<^verbatim>\<open>next_element\<close>: a scalar line adds one, a nested unit without
  a key leaves it as it was.
\<close>

lemma list_item_scalar:
  "CHR ''{'' \<notin> set line \<Longrightarrow> change_data_type fl line = Inr v \<Longrightarrow>
     list_item fl reader st line rd ne = Some (Inr (rd @ [v], ne + 1), st)"
  by (simp add: list_item_def)

lemma list_item_nested_no_key:
  "CHR ''{'' \<in> set line \<Longrightarrow> CHR ''='' \<notin> set line \<Longrightarrow> reader st = Some (Inr v, st1) \<Longrightarrow>
     list_item fl reader st line rd ne = Some (Inr (rd @ [v], ne), st1)"
  by (simp add: list_item_def)

text \<open>
  C2. The claim: a nested unit without a key adds one to \<^verbatim>\<open>next_element\<close>, so that a later
  key \<^verbatim>\<open>[n]\<close> is padded with n minus the number of elements already there. The code does
  not add one (\<open>list_item_nested_no_key\<close>): in \<^verbatim>\<open>{{1},[2]={3}}\<close> one element is there when
  the key 2 comes, and two placeholders are added, not one.
\<close>

theorem C2_nested_unit_not_counted:
  "Loader fl ''{{1},[2]={3}}'' =
     Some (Inr (PList [PList [PInt 1], PStr [], PStr [], PList [PInt 3]]),
           \<lparr>parsed_map = raw_map_to_list ''{{1},[2]={3}}'', counter = 8, printed = [],
              reads = [1, 2, 3, 4, 5, 6, 7]\<rparr>)"
  by (simp add: pre_eval reader_eval)

section \<open>Claims about the end of a unit\<close>




text \<open>The parse goes on after such a unit: the enclosing dict gets the empty list.\<close>

lemma aborted_unit_in_dict:
  "Loader fl ''{a={1,,2},b=3}'' =
     Some (Inr (PDict [(''a'', PList [])]),
           \<lparr>parsed_map = raw_map_to_list ''{a={1,,2},b=3}'', counter = 6,
              printed = [''Unexpected end of file'',
                         ''Unhandled line in a dictionary like logical part: 2'',
                         ''It can be found at line number 5.''],
              reads = [1, 2, 3, 4, 5]\<rparr>)"
  by (simp add: pre_eval reader_eval str_nat.simps char_of_53)

text \<open>
  C4. The claim: every unit's parse ends on a line with the closing brace, its last line
  read, and leaves the counter one past it. It fails for a list unit stopped by an empty
  line: in \<^verbatim>\<open>{1,,2}\<close> the unit returns after lines 1 and 2, neither holds a closing brace,
  and the counter is 3.
\<close>

theorem C4_aborted_unit_counterexample:
  "Loader no_float ''{1,,2}'' =
     Some (Inr (PList []),
           \<lparr>parsed_map = raw_map_to_list ''{1,,2}'', counter = 3,
              printed = [''Unexpected end of file''], reads = [1, 2]\<rparr>) \<and>
   CHR ''}'' \<notin> set (raw_map_to_list ''{1,,2}'' ! 1) \<and>
   CHR ''}'' \<notin> set (raw_map_to_list ''{1,,2}'' ! 2)"
  by (simp add: pre_eval reader_eval)

text \<open>
  C4, amended. A unit's parse that returns a value has read at least one line, the lines
  from the old counter up to the new one and no other, and the counter is one past the last
  line read. That last line holds the closing brace, or it is empty, the message
  \<^verbatim>\<open>Unexpected end of file\<close> was the last thing printed and the value is the empty list
  (\<open>unit_end\<close>). A loop that holds a line with the closing brace returns at once, reading
  nothing more, so the unit's own loop reads no second closing line.
\<close>

theorem C4_unit_ends_at_closing_line:
  "(map_reader fl n st = Some (Inr v, st') \<longrightarrow>
      counter st < counter st' \<and> counter st' \<le> length (parsed_map st) \<and>
      parsed_map st' = parsed_map st \<and>
      reads st' = reads st @ [counter st ..< counter st'] \<and>
      last (reads st') = counter st' - 1 \<and>
      unit_end st' v) \<and>
   (CHR ''}'' \<in> set line \<longrightarrow>
      list_loop fl (Suc n) st line rd ne = Some (Inr (PList rd), st)) \<and>
   (CHR ''}'' \<in> set line \<longrightarrow>
      dict_loop fl (Suc n) st line rdd = Some (Inr (PDict rdd), st))"
proof (intro conjI impI)
  assume r: "map_reader fl n st = Some (Inr v, st')"
  from map_reader_unit_end [OF r] show c: "counter st < counter st'" and "unit_end st' v"
    by simp_all
  from map_reader_advanced [OF r] c
  show "counter st' \<le> length (parsed_map st)" and "parsed_map st' = parsed_map st"
    and a: "reads st' = reads st @ [counter st ..< counter st']"
    by (auto simp: advanced_def)
  from c have "[counter st ..< counter st'] = [counter st ..< counter st' - 1] @ [counter st' - 1]"
    by (cases "counter st'") simp_all
  with a show "last (reads st') = counter st' - 1" by simp
qed simp_all

theorem C4_unit_ends_at_closing_line_witness:
  "map_reader no_float 7 (loader_init ''{1}'') =
     Some (Inr (PList [PInt 1]),
           \<lparr>parsed_map = raw_map_to_list ''{1}'', counter = 3, printed = [], reads = [1, 2]\<rparr>) \<and>
   CHR ''}'' \<in> set ''}'' \<and>
   counter (loader_init ''{1}'') <
     counter \<lparr>parsed_map = raw_map_to_list ''{1}'', counter = 3, printed = [], reads = [1, 2]\<rparr> \<and>
   last (reads \<lparr>parsed_map = raw_map_to_list ''{1}'', counter = 3, printed = [], reads = [1, 2]\<rparr>) =
     counter \<lparr>parsed_map = raw_map_to_list ''{1}'', counter = 3, printed = [], reads = [1, 2]\<rparr> - 1 \<and>
   unit_end \<lparr>parsed_map = raw_map_to_list ''{1}'', counter = 3, printed = [], reads = [1, 2]\<rparr>
     (PList [PInt 1 :: unit pyval]) \<and>
   list_loop no_float (Suc 7) (loader_init ''{1}'') ''}'' [] 0 =
     Some (Inr (PList []), loader_init ''{1}'') \<and>
   dict_loop no_float (Suc 7) (loader_init ''{1}'') ''}'' [] =
     Some (Inr (PDict []), loader_init ''{1}'')"
proof -
  let ?st' = "\<lparr>parsed_map = raw_map_to_list ''{1}'', counter = 3, printed = [], reads = [1, 2]\<rparr>"
  have h: "map_reader no_float 7 (loader_init ''{1}'') = Some (Inr (PList [PInt 1]), ?st')"
    by (simp add: pre_eval reader_eval)
  have b: "CHR ''}'' \<in> set ''}''" by simp
  from C4_unit_ends_at_closing_line
    [of no_float 7 "loader_init ''{1}''" "PList [PInt 1]" ?st' "''}''" "[]" 0 "[]"] h b
  show ?thesis by blast
qed

section \<open>Claims about the counter\<close>

text \<open>
  C5. Across a parse the counter never goes back: each read of a line adds exactly one to
  it, and the lines read are those of the indices from the old counter up to the new one,
  each once and in order. This holds for every call of the reader, whatever it returns,
  and so for the whole parse, which starts at line 1.
\<close>

theorem C5_counter_monotone:
  "(get_next_line st = (Inr l, st1) \<longrightarrow>
      counter st1 = counter st + 1 \<and> reads st1 = reads st @ [counter st]) \<and>
   (map_reader fl n st = Some (r, st') \<longrightarrow>
      counter st \<le> counter st' \<and> reads st' = reads st @ [counter st ..< counter st']) \<and>
   (Loader fl data = Some (r, st'') \<longrightarrow>
      1 \<le> counter st'' \<and> reads st'' = [1 ..< counter st''] \<and> distinct (reads st'') \<and>
      sorted (reads st''))"
proof (intro conjI impI)
  assume "get_next_line st = (Inr l, st1)"
  from get_next_line_Inr [OF this]
  show "counter st1 = counter st + 1" and "reads st1 = reads st @ [counter st]" by simp_all
next
  assume "map_reader fl n st = Some (r, st')"
  from map_reader_advanced [OF this]
  show "counter st \<le> counter st'" and "reads st' = reads st @ [counter st ..< counter st']"
    by (simp_all add: advanced_def)
next
  assume "Loader fl data = Some (r, st'')"
  from map_reader_advanced [OF this [unfolded Loader_def]]
  show "1 \<le> counter st''" and rd: "reads st'' = [1 ..< counter st'']"
    by (simp_all add: advanced_def loader_init_def)
  from rd show "distinct (reads st'')" and "sorted (reads st'')" by simp_all
qed

theorem C5_counter_monotone_witness:
  "get_next_line (loader_init ''{7,8}'') =
     (Inr ''7'', \<lparr>parsed_map = raw_map_to_list ''{7,8}'', counter = 2, printed = [], reads = [1]\<rparr>) \<and>
   map_reader no_float 9 (loader_init ''{7,8}'') =
     Some (Inr (PList [PInt 7, PInt 8]),
           \<lparr>parsed_map = raw_map_to_list ''{7,8}'', counter = 4, printed = [],
              reads = [1, 2, 3]\<rparr>) \<and>
   Loader no_float ''{7,8}'' =
     Some (Inr (PList [PInt 7, PInt 8]),
           \<lparr>parsed_map = raw_map_to_list ''{7,8}'', counter = 4, printed = [],
              reads = [1, 2, 3]\<rparr>) \<and>
   counter \<lparr>parsed_map = raw_map_to_list ''{7,8}'', counter = 2, printed = [], reads = [1]\<rparr> =
     counter (loader_init ''{7,8}'') + 1 \<and>
   counter (loader_init ''{7,8}'') \<le>
     counter \<lparr>parsed_map = raw_map_to_list ''{7,8}'', counter = 4, printed = [],
                reads = [1, 2, 3]\<rparr> \<and>
   distinct (reads \<lparr>parsed_map = raw_map_to_list ''{7,8}'', counter = 4, printed = [],
                     reads = [1, 2, 3]\<rparr>)"
proof -
  let ?st1 = "\<lparr>parsed_map = raw_map_to_list ''{7,8}'', counter = 2, printed = [], reads = [1]\<rparr>"
  let ?st' = "\<lparr>parsed_map = raw_map_to_list ''{7,8}'', counter = 4, printed = [],
              reads = [1, 2, 3]\<rparr>"
  have a: "get_next_line (loader_init ''{7,8}'') = (Inr ''7'', ?st1)"
    by (simp add: pre_eval reader_eval)
  have b: "map_reader no_float 9 (loader_init ''{7,8}'') = Some (Inr (PList [PInt 7, PInt 8]), ?st')"
    by (simp add: pre_eval reader_eval)
  have c: "Loader no_float ''{7,8}'' = Some (Inr (PList [PInt 7, PInt 8]), ?st')"
    by (simp add: pre_eval reader_eval)
  from C5_counter_monotone
    [of "loader_init ''{7,8}''" "''7''" ?st1 no_float 9 "Inr (PList [PInt 7, PInt 8])" ?st'
        "''{7,8}''" ?st'] a b c
  show ?thesis by blast
qed

section \<open>Claims about the dict loop\<close>

text \<open>
  C9. In the dict loop a line with neither \<open>=\<close> nor \<open>}\<close> is reported by two printed lines, one
  with the text of the line and one with the counter, which at that moment is the number of
  the line counted from 1 (one more than its index in the line list). Nothing else happens
  to that line: \<^verbatim>\<open>return_data\<close> is unchanged and the loop goes on with the next line. So
  \<^verbatim>\<open>{a=1,garbage,b=2}\<close> gives the dict with \<open>a\<close> and \<open>b\<close> and one report, for line 3.
\<close>

theorem C9_unhandled_line_skipped:
  "(CHR ''='' \<notin> set line \<longrightarrow>
      dict_item fl reader st line rd =
        Some (Inr rd, st\<lparr>printed := printed st @
               [''Unhandled line in a dictionary like logical part: '' @ line,
                ''It can be found at line number '' @ str_nat (counter st) @ ''.'']\<rparr>)) \<and>
   (CHR ''='' \<notin> set line \<and> CHR ''}'' \<notin> set line \<and>
    get_next_line (st\<lparr>printed := printed st @ unhandled_line line (counter st)\<rparr>) =
      (Inr line', st2) \<longrightarrow>
      dict_loop fl (Suc n) st line rd = dict_loop fl n st2 line' rd) \<and>
   (get_next_line st0 = (Inr line, st) \<longrightarrow>
      counter st = counter st0 + 1 \<and>
      line = rstrip_comma (strip (parsed_map st0 ! counter st0))) \<and>
   Loader fl ''{a=1,garbage,b=2}'' =
     Some (Inr (PDict [(''a'', PInt 1), (''b'', PInt 2)]),
           \<lparr>parsed_map = raw_map_to_list ''{a=1,garbage,b=2}'', counter = 5,
              printed = [''Unhandled line in a dictionary like logical part: garbage'',
                         ''It can be found at line number 3.''],
              reads = [1, 2, 3, 4]\<rparr>)"
proof (intro conjI impI)
  assume "CHR ''='' \<notin> set line"
  then show "dict_item fl reader st line rd =
        Some (Inr rd, st\<lparr>printed := printed st @
               [''Unhandled line in a dictionary like logical part: '' @ line,
                ''It can be found at line number '' @ str_nat (counter st) @ ''.'']\<rparr>)"
    by (simp add: dict_item_def unhandled_line_def)
next
  assume "CHR ''='' \<notin> set line \<and> CHR ''}'' \<notin> set line \<and>
    get_next_line (st\<lparr>printed := printed st @ unhandled_line line (counter st)\<rparr>) =
      (Inr line', st2)"
  then show "dict_loop fl (Suc n) st line rd = dict_loop fl n st2 line' rd"
    by (simp add: dict_item_def)
next
  assume "get_next_line st0 = (Inr line, st)"
  from get_next_line_Inr [OF this]
  show "counter st = counter st0 + 1"
    and "line = rstrip_comma (strip (parsed_map st0 ! counter st0))" by simp_all
next
  show "Loader fl ''{a=1,garbage,b=2}'' =
     Some (Inr (PDict [(''a'', PInt 1), (''b'', PInt 2)]),
           \<lparr>parsed_map = raw_map_to_list ''{a=1,garbage,b=2}'', counter = 5,
              printed = [''Unhandled line in a dictionary like logical part: garbage'',
                         ''It can be found at line number 3.''],
              reads = [1, 2, 3, 4]\<rparr>)"
    by (simp add: pre_eval reader_eval str_nat.simps char_of_51)
qed

theorem C9_unhandled_line_skipped_witness:
  "CHR ''='' \<notin> set ''garbage'' \<and> CHR ''}'' \<notin> set ''garbage'' \<and>
   get_next_line (\<lparr>parsed_map = raw_map_to_list ''{a=1,garbage,b=2}'', counter = 2, printed = [], reads = [1]\<rparr>) =
     (Inr ''garbage'', \<lparr>parsed_map = raw_map_to_list ''{a=1,garbage,b=2}'', counter = 3, printed = [], reads = [1, 2]\<rparr>) \<and>
   get_next_line ((\<lparr>parsed_map = raw_map_to_list ''{a=1,garbage,b=2}'', counter = 3, printed = [], reads = [1, 2]\<rparr>)\<lparr>printed := printed (\<lparr>parsed_map = raw_map_to_list ''{a=1,garbage,b=2}'', counter = 3, printed = [], reads = [1, 2]\<rparr>) @ unhandled_line ''garbage'' (counter (\<lparr>parsed_map = raw_map_to_list ''{a=1,garbage,b=2}'', counter = 3, printed = [], reads = [1, 2]\<rparr>))\<rparr>) =
     (Inr ''b=2'', \<lparr>parsed_map = raw_map_to_list ''{a=1,garbage,b=2}'', counter = 4, printed = [''Unhandled line in a dictionary like logical part: garbage'', ''It can be found at line number 3.''], reads = [1, 2, 3]\<rparr>) \<and>
   dict_item no_float (map_reader no_float 3) (\<lparr>parsed_map = raw_map_to_list ''{a=1,garbage,b=2}'', counter = 3, printed = [], reads = [1, 2]\<rparr>) ''garbage'' [(''a'', PInt 1)] =
     Some (Inr [(''a'', PInt 1)], (\<lparr>parsed_map = raw_map_to_list ''{a=1,garbage,b=2}'', counter = 3, printed = [], reads = [1, 2]\<rparr>)\<lparr>printed := printed (\<lparr>parsed_map = raw_map_to_list ''{a=1,garbage,b=2}'', counter = 3, printed = [], reads = [1, 2]\<rparr>) @
       [''Unhandled line in a dictionary like logical part: '' @ ''garbage'',
        ''It can be found at line number '' @ str_nat (counter (\<lparr>parsed_map = raw_map_to_list ''{a=1,garbage,b=2}'', counter = 3, printed = [], reads = [1, 2]\<rparr>)) @ ''.'']\<rparr>) \<and>
   dict_loop no_float (Suc 3) (\<lparr>parsed_map = raw_map_to_list ''{a=1,garbage,b=2}'', counter = 3, printed = [], reads = [1, 2]\<rparr>) ''garbage'' [(''a'', PInt 1)] =
     dict_loop no_float 3 (\<lparr>parsed_map = raw_map_to_list ''{a=1,garbage,b=2}'', counter = 4, printed = [''Unhandled line in a dictionary like logical part: garbage'', ''It can be found at line number 3.''], reads = [1, 2, 3]\<rparr>) ''b=2'' [(''a'', PInt 1)] \<and>
   counter (\<lparr>parsed_map = raw_map_to_list ''{a=1,garbage,b=2}'', counter = 3, printed = [], reads = [1, 2]\<rparr>) = counter (\<lparr>parsed_map = raw_map_to_list ''{a=1,garbage,b=2}'', counter = 2, printed = [], reads = [1]\<rparr>) + 1 \<and>
   dict_loop no_float 3 (\<lparr>parsed_map = raw_map_to_list ''{a=1,garbage,b=2}'', counter = 4, printed = [''Unhandled line in a dictionary like logical part: garbage'', ''It can be found at line number 3.''], reads = [1, 2, 3]\<rparr>) ''b=2'' [(''a'', PInt 1)] =
     Some (Inr (PDict [(''a'', PInt 1), (''b'', PInt 2)]),
           \<lparr>parsed_map = raw_map_to_list ''{a=1,garbage,b=2}'', counter = 5,
              printed = [''Unhandled line in a dictionary like logical part: garbage'',
                         ''It can be found at line number 3.''],
              reads = [1, 2, 3, 4]\<rparr>)"
proof -
  let ?before = "\<lparr>parsed_map = raw_map_to_list ''{a=1,garbage,b=2}'', counter = 2, printed = [], reads = [1]\<rparr>"
  let ?here = "\<lparr>parsed_map = raw_map_to_list ''{a=1,garbage,b=2}'', counter = 3, printed = [], reads = [1, 2]\<rparr>"
  let ?after = "\<lparr>parsed_map = raw_map_to_list ''{a=1,garbage,b=2}'', counter = 4, printed = [''Unhandled line in a dictionary like logical part: garbage'', ''It can be found at line number 3.''], reads = [1, 2, 3]\<rparr>"
  have a: "CHR ''='' \<notin> set ''garbage''" and b: "CHR ''}'' \<notin> set ''garbage''" by simp_all
  have c: "get_next_line ?before = (Inr ''garbage'', ?here)"
    by (simp add: pre_eval reader_eval)
  have d: "get_next_line (?here\<lparr>printed := printed ?here @ unhandled_line ''garbage'' (counter ?here)\<rparr>) =
      (Inr ''b=2'', ?after)"
    by (simp add: pre_eval reader_eval str_nat.simps char_of_51)
  have e: "dict_loop no_float 3 ?after ''b=2'' [(''a'', PInt 1)] =
     Some (Inr (PDict [(''a'', PInt 1), (''b'', PInt 2)]),
           \<lparr>parsed_map = raw_map_to_list ''{a=1,garbage,b=2}'', counter = 5,
              printed = [''Unhandled line in a dictionary like logical part: garbage'',
                         ''It can be found at line number 3.''],
              reads = [1, 2, 3, 4]\<rparr>)"
    by (simp add: pre_eval reader_eval)
  from C9_unhandled_line_skipped
    [of "''garbage''" no_float "map_reader no_float 3" ?here "[(''a'', PInt 1)]" "''b=2''" ?after 3 ?before]
    a b c d e
  show ?thesis by blast
qed

section \<open>Splitting and joining\<close>

lemma split_on_not_Nil: "split_on sep s \<noteq> []"
  by (induction s) (auto split: list.splits)

lemma length_split_on: "length (split_on sep s) = Suc (length (filter (\<lambda>c. c = sep) s))"
  by (induction s) (auto simp: split_on_not_Nil split: list.splits)

lemma join_Cons_Cons: "join sep ((c # p) # ps) = c # join sep (p # ps)"
  by (cases ps) simp_all

lemma join_split_on: "join sep (split_on sep s) = s"
proof (induction s)
  case Nil
  show ?case by simp
next
  case (Cons c cs)
  obtain p ps where sp: "split_on sep cs = p # ps"
    using split_on_not_Nil [of sep cs] by (cases "split_on sep cs") auto
  with Cons show ?case by (simp add: join_Cons_Cons)
qed

lemma hd_split_on: "hd (split_on sep s) = takeWhile (\<lambda>c. c \<noteq> sep) s"
  by (induction s) (auto simp: split_on_not_Nil split: list.splits)

lemma split_on_two:
  "sep \<in> set s \<Longrightarrow> \<exists>p q ps. split_on sep s = p # q # ps"
proof (induction s)
  case Nil
  then show ?case by simp
next
  case (Cons c cs)
  obtain p ps where sp: "split_on sep cs = p # ps"
    using split_on_not_Nil [of sep cs] by (cases "split_on sep cs") auto
  show ?case
  proof (cases "c = sep")
    case True
    with sp show ?thesis by simp
  next
    case False
    with Cons sp show ?thesis by auto
  qed
qed

lemma split_on_key_data:
  assumes "sep \<in> set s"
  shows "s = hd (split_on sep s) @ sep # join sep (tl (split_on sep s))"
proof -
  from split_on_two [OF assms] obtain p q ps where sp: "split_on sep s = p # q # ps" by blast
  have "s = join sep (split_on sep s)" by (simp add: join_split_on)
  with sp show ?thesis by simp
qed

lemma rstrip_comma_last:
  "rstrip_comma s = [] \<or> last (rstrip_comma s) \<noteq> CHR '',''"
proof (cases "dropWhile (\<lambda>c. c = CHR '','') (rev s)")
  case Nil
  then show ?thesis by (simp add: rstrip_comma_def)
next
  case (Cons a as)
  from hd_dropWhile [of "\<lambda>c. c = CHR '',''" "rev s"] Cons have "a \<noteq> CHR '',''" by simp
  with Cons show ?thesis by (simp add: rstrip_comma_def)
qed

section \<open>The preprocessor counts its line breaks\<close>

lemma raw_map_step_in_quote:
  "in_quote (raw_map_step s ch) = (if ch = dquote then \<not> in_quote s else in_quote s)"
  by (simp add: raw_map_step_def Let_def)

lemma no_newline_in_tabs: "filter (\<lambda>c. c = CHR 0x0A) (tabs n) = []"
  by (simp add: tabs_def tab_def)

lemma raw_map_step_breaks:
  "length (filter (\<lambda>c. c = newline) (extended_map (raw_map_step s ch))) =
     length (filter (\<lambda>c. c = newline) (extended_map s)) + line_breaks (in_quote s) [ch]"
  by (simp add: raw_map_step_def Let_def newline_def dquote_def no_newline_in_tabs)

lemma line_breaks_Cons:
  "line_breaks q (c # cs) = line_breaks q [c] + line_breaks (if c = dquote then \<not> q else q) cs"
  by simp

lemma foldl_raw_map_step_breaks:
  "length (filter (\<lambda>c. c = newline) (extended_map (foldl raw_map_step s data))) =
     length (filter (\<lambda>c. c = newline) (extended_map s)) + line_breaks (in_quote s) data"
proof (induction data arbitrary: s)
  case Nil
  show ?case by simp
next
  case (Cons c cs)
  have "length (filter (\<lambda>c. c = newline) (extended_map (foldl raw_map_step s (c # cs)))) =
      length (filter (\<lambda>c. c = newline) (extended_map (raw_map_step s c))) +
      line_breaks (in_quote (raw_map_step s c)) cs"
    using Cons [of "raw_map_step s c"] by simp
  also have "\<dots> = length (filter (\<lambda>c. c = newline) (extended_map s)) +
      line_breaks (in_quote s) [c] + line_breaks (if c = dquote then \<not> in_quote s else in_quote s) cs"
    by (simp only: raw_map_step_breaks raw_map_step_in_quote)
  also have "\<dots> = length (filter (\<lambda>c. c = newline) (extended_map s)) +
      line_breaks (in_quote s) (c # cs)"
    by (simp only: line_breaks_Cons [of "in_quote s" c cs] add.assoc)
  finally show ?case .
qed

lemma length_raw_map_to_list: "length (raw_map_to_list data) = Suc (line_breaks False data)"
  by (simp add: raw_map_to_list_def length_split_on foldl_raw_map_step_breaks pre_init_def)

section \<open>Coercing the text of a value again\<close>

text \<open>
  The loader has no function that turns a value back into text, and \<^verbatim>\<open>float\<close> is not
  modelled. What can be said without them: a token that was coerced to a string (the empty
  token, or one with a double quote) is coerced to the same string again; the words
  \<^verbatim>\<open>true\<close> and \<^verbatim>\<open>false\<close> give the two booleans, while Python's own names \<^verbatim>\<open>True\<close> and
  \<^verbatim>\<open>False\<close> are sent to \<^verbatim>\<open>int\<close> and raise; and the decimal text of an int is coerced to
  that int.
\<close>

lemma coerced_string_again:
  "change_data_type fl token = Inr (PStr s) \<Longrightarrow> change_data_type fl s = Inr (PStr s)"
  by (auto simp: change_data_type_def split: if_splits option.splits)

lemma coerced_bool_words:
  "change_data_type fl ''true'' = Inr (PBool True)"
  "change_data_type fl ''false'' = Inr (PBool False)"
  by (simp_all add: change_data_type_def)

lemma coerced_python_bool_names:
  "change_data_type fl ''True'' = Inl ValueError"
  "change_data_type fl ''False'' = Inl ValueError"
  by (simp_all add: change_data_type_def dquote_def py_int_def py_digits_def strip_def
      isspace_def isdigit_def)

lemma digit_char:
  fixes d :: nat
  assumes "d < 10"
  shows "isdigit (char_of (48 + d))" and "digit_val (char_of (48 + d)) = d"
    and "\<not> isspace (char_of (48 + d))" and "char_of (48 + d) \<noteq> dquote"
    and "char_of (48 + d) \<noteq> CHR ''.''" and "char_of (48 + d) \<noteq> CHR ''-''"
    and "char_of (48 + d) \<noteq> CHR ''+''" and "char_of (48 + d) \<noteq> CHR ''t''"
    and "char_of (48 + d) \<noteq> CHR ''f''"
proof -
  from assms have "(48 + d) mod 256 = 48 + d" by simp
  then have o: "(of_char (char_of (48 + d)) :: nat) = 48 + d"
    by (simp only: of_char_of)
  from o assms show "isdigit (char_of (48 + d))" by (simp add: isdigit_def)
  from o show "digit_val (char_of (48 + d)) = d" by (simp add: digit_val_def)
  from o assms show "\<not> isspace (char_of (48 + d))" by (simp add: isspace_def)
  have ne: "char_of (48 + d) \<noteq> c" if "(of_char c :: nat) < 48 \<or> 58 \<le> (of_char c :: nat)" for c
  proof
    assume "char_of (48 + d) = c"
    with o have "(of_char c :: nat) = 48 + d" by simp
    with that assms show False by simp
  qed
  show "char_of (48 + d) \<noteq> dquote" by (rule ne) (simp add: dquote_def)
  show "char_of (48 + d) \<noteq> CHR ''.''" by (rule ne) simp
  show "char_of (48 + d) \<noteq> CHR ''-''" by (rule ne) simp
  show "char_of (48 + d) \<noteq> CHR ''+''" by (rule ne) simp
  show "char_of (48 + d) \<noteq> CHR ''t''" by (rule ne) simp
  show "char_of (48 + d) \<noteq> CHR ''f''" by (rule ne) simp
qed

lemma str_nat_digits:
  "str_nat n \<noteq> [] \<and> (\<forall>c \<in> set (str_nat n). \<exists>d::nat. d < 10 \<and> c = char_of (48 + d))"
proof (induction n rule: str_nat.induct)
  case (1 n)
  show ?case
  proof (cases "n < 10")
    case True
    then have "str_nat n = [char_of (48 + n)]" by (subst str_nat.simps) simp
    with True show ?thesis by auto
  next
    case False
    then have e: "str_nat n = str_nat (n div 10) @ [char_of (48 + n mod 10)]"
      by (subst str_nat.simps) simp
    have "\<exists>d::nat. d < 10 \<and> char_of (48 + n mod 10) = char_of (48 + d)"
      by (rule exI [of _ "n mod 10"]) simp
    with "1.IH" [OF False] show ?thesis unfolding e by simp
  qed
qed

lemma str_nat_not_Nil: "str_nat n \<noteq> []"
  using str_nat_digits [of n] by blast

lemma str_nat_digit:
  assumes "c \<in> set (str_nat n)"
  obtains d :: nat where "d < 10" and "c = char_of (48 + d)"
  using str_nat_digits [of n] assms by blast

lemma str_nat_isdigit: "c \<in> set (str_nat n) \<Longrightarrow> isdigit c"
  by (erule str_nat_digit) (simp add: digit_char(1))

lemma str_nat_not_space: "c \<in> set (str_nat n) \<Longrightarrow> \<not> isspace c"
  by (erule str_nat_digit) (simp add: digit_char(3))

lemma int_digits_snoc:
  "\<forall>c \<in> set xs. isdigit c \<Longrightarrow> isdigit d \<Longrightarrow>
     int_digits acc (xs @ [d]) = map_option (\<lambda>v. 10 * v + digit_val d) (int_digits acc xs)"
  by (induction xs arbitrary: acc) simp_all

lemma py_digits_snoc:
  "xs \<noteq> [] \<Longrightarrow> \<forall>c \<in> set xs. isdigit c \<Longrightarrow> isdigit d \<Longrightarrow>
     py_digits (xs @ [d]) = map_option (\<lambda>v. 10 * v + digit_val d) (py_digits xs)"
  by (cases xs) (simp_all add: py_digits_def int_digits_snoc)

lemma py_digits_str_nat: "py_digits (str_nat n) = Some n"
proof (induction n rule: str_nat.induct)
  case (1 n)
  show ?case
  proof (cases "n < 10")
    case True
    then have "str_nat n = [char_of (48 + n)]" by (subst str_nat.simps) simp
    with True show ?thesis by (simp add: py_digits_def digit_char)
  next
    case False
    then have e: "str_nat n = str_nat (n div 10) @ [char_of (48 + n mod 10)]"
      by (subst str_nat.simps) simp
    have m: "n mod 10 < 10" by simp
    have "py_digits (str_nat (n div 10) @ [char_of (48 + n mod 10)]) =
        map_option (\<lambda>v. 10 * v + digit_val (char_of (48 + n mod 10))) (py_digits (str_nat (n div 10)))"
    proof (rule py_digits_snoc)
      show "str_nat (n div 10) \<noteq> []" by (rule str_nat_not_Nil)
      show "\<forall>c \<in> set (str_nat (n div 10)). isdigit c" by (simp add: str_nat_isdigit)
      show "isdigit (char_of (48 + n mod 10))" by (rule digit_char(1) [OF m])
    qed
    also have "\<dots> = Some (10 * (n div 10) + n mod 10)"
      by (simp only: "1.IH" [OF False] digit_char(2) [OF m] option.map)
    also have "\<dots> = Some n" by simp
    finally show ?thesis by (simp only: e)
  qed
qed

lemma strip_no_space:
  assumes "s \<noteq> []" and "\<not> isspace (hd s)" and "\<not> isspace (last s)"
  shows "strip s = s"
proof -
  from assms(1,2) have a: "dropWhile isspace s = s" by (cases s) simp_all
  from assms(1) have "rev s \<noteq> []" by simp
  moreover from assms(1,3) have "\<not> isspace (hd (rev s))" by (simp add: hd_rev)
  ultimately have "dropWhile isspace (rev s) = rev s" by (cases "rev s") simp_all
  with a show ?thesis by (simp add: strip_def)
qed

lemma strip_str_nat: "strip (str_nat n) = str_nat n"
proof (rule strip_no_space)
  show ne: "str_nat n \<noteq> []" by (rule str_nat_not_Nil)
  from ne have "hd (str_nat n) \<in> set (str_nat n)" by simp
  then show "\<not> isspace (hd (str_nat n))" by (rule str_nat_not_space)
  from ne have "last (str_nat n) \<in> set (str_nat n)" by simp
  then show "\<not> isspace (last (str_nat n))" by (rule str_nat_not_space)
qed

lemma py_int_str_int: "py_int (str_int i) = Some i"
proof (cases "i < 0")
  case True
  have "strip (CHR ''-'' # str_nat (nat (- i))) = CHR ''-'' # str_nat (nat (- i))"
  proof (rule strip_no_space)
    show "CHR ''-'' # str_nat (nat (- i)) \<noteq> []" by simp
    show "\<not> isspace (hd (CHR ''-'' # str_nat (nat (- i))))" by (simp add: isspace_def)
    have "last (str_nat (nat (- i))) \<in> set (str_nat (nat (- i)))"
      by (simp add: str_nat_not_Nil)
    then have "\<not> isspace (last (str_nat (nat (- i))))" by (rule str_nat_not_space)
    then show "\<not> isspace (last (CHR ''-'' # str_nat (nat (- i))))"
      by (simp add: str_nat_not_Nil)
  qed
  with True show ?thesis by (simp add: py_int_def str_int_def py_digits_str_nat)
next
  case False
  obtain c cs where cs: "str_nat (nat i) = c # cs"
    using str_nat_not_Nil [of "nat i"] by (cases "str_nat (nat i)") auto
  then have "c \<in> set (str_nat (nat i))" by simp
  then obtain d :: nat where d: "d < 10" "c = char_of (48 + d)" by (rule str_nat_digit)
  from d digit_char(6,7) [OF d(1)] have "c \<noteq> CHR ''-''" and "c \<noteq> CHR ''+''" by simp_all
  moreover have "strip (c # cs) = c # cs" "py_digits (c # cs) = Some (nat i)"
    using strip_str_nat [of "nat i"] py_digits_str_nat [of "nat i"] by (simp_all only: cs)
  ultimately show ?thesis using False by (simp add: py_int_def str_int_def cs)
qed

lemma str_int_not_Nil: "str_int i \<noteq> []"
  by (simp add: str_int_def str_nat_not_Nil)

lemma str_int_chars:
  assumes "c \<in> set (str_int i)"
  shows "c = CHR ''-'' \<or> (\<exists>d::nat. d < 10 \<and> c = char_of (48 + d))"
proof (cases "c = CHR ''-''")
  case True
  then show ?thesis by simp
next
  case False
  with assms have "c \<in> set (str_nat (nat (- i))) \<or> c \<in> set (str_nat (nat i))"
    by (auto simp: str_int_def split: if_splits)
  then show ?thesis using str_nat_digits by blast
qed

lemma str_int_avoids:
  assumes "c \<noteq> CHR ''-''" and "\<And>d::nat. d < 10 \<Longrightarrow> char_of (48 + d) \<noteq> c"
  shows "c \<notin> set (str_int i)"
  using str_int_chars [of c i] assms by blast

lemma coerced_int_text: "change_data_type fl (str_int i) = Inr (PInt i)"
proof -
  have q: "dquote \<notin> set (str_int i)"
    by (rule str_int_avoids) (simp_all add: digit_char(4), simp add: dquote_def)
  have p: "CHR ''.'' \<notin> set (str_int i)"
    by (rule str_int_avoids) (simp_all add: digit_char(5))
  have "CHR ''t'' \<notin> set (str_int i)"
    by (rule str_int_avoids) (simp_all add: digit_char(8))
  then have t: "str_int i \<noteq> ''true''" by auto
  have "CHR ''f'' \<notin> set (str_int i)"
    by (rule str_int_avoids) (simp_all add: digit_char(9))
  then have f: "str_int i \<noteq> ''false''" by auto
  from str_int_not_Nil [of i] q p t f show ?thesis
    by (simp add: change_data_type_def py_int_str_int)
qed

section \<open>Claims about type coercion\<close>

text \<open>
  C7. A token that holds a double quote anywhere is returned as a string, unchanged, quotes
  included, whatever \<^verbatim>\<open>float\<close> or \<^verbatim>\<open>int\<close> would make of it: the test for the quote comes
  before both.
\<close>

theorem C7_quoted_token_is_string:
  "dquote \<in> set token \<Longrightarrow> change_data_type fl token = Inr (PStr token)"
  by (auto simp: change_data_type_def dquote_def)

theorem C7_quoted_token_is_string_witness:
  "dquote \<in> set [dquote, CHR ''1'', CHR ''2'', dquote] \<and>
   change_data_type no_float [dquote, CHR ''1'', CHR ''2'', dquote] =
     Inr (PStr [dquote, CHR ''1'', CHR ''2'', dquote]) \<and>
   py_int ''12'' = Some 12"
  using C7_quoted_token_is_string [of "[dquote, CHR ''1'', CHR ''2'', dquote]" no_float]
  by (simp add: py_int_def py_digits_def strip_def isspace_def isdigit_def digit_val_def)

section \<open>Claims about the preprocessor and the lines it hands over\<close>

text \<open>
  C8. A comma inside a quoted string is not a separator. At a comma the preprocessor emits
  the comma, and a line break with the indentation only when the quote flag is off; the
  flag flips at every double quote and nowhere else. So over a whole text the number of
  lines is one more than the number of braces, of commas met with the flag off and of line
  breaks already in the text (\<open>line_breaks\<close>): a comma met with the flag on adds none. The
  text of the claim gives four lines and a dict of two entries, the first with the whole
  quoted text, comma included.
\<close>

theorem C8_quoted_comma_is_no_separator:
  \<open>raw_map_step s CHR '','' =
     s\<lparr>extended_map := extended_map s @
          (if in_quote s then '','' else '','' @ [newline] @ tabs (indents s))\<rparr> \<and>
   in_quote (raw_map_step s ch) = (if ch = dquote then \<not> in_quote s else in_quote s) \<and>
   length (raw_map_to_list data) = Suc (line_breaks False data) \<and>
   raw_map_to_list ''{a="x,y",b=2}'' = [''{'', tab # ''a="x,y",'', tab # ''b=2'', ''}''] \<and>
   Loader fl ''{a="x,y",b=2}'' =
     Some (Inr (PDict [(''a'', PStr ''"x,y"''), (''b'', PInt 2)]),
           \<lparr>parsed_map = raw_map_to_list ''{a="x,y",b=2}'', counter = 4, printed = [],
              reads = [1, 2, 3]\<rparr>)\<close>
proof (intro conjI)
  show "raw_map_step s CHR '','' =
     s\<lparr>extended_map := extended_map s @
          (if in_quote s then '','' else '','' @ [newline] @ tabs (indents s))\<rparr>"
    by (simp add: raw_map_step_def dquote_def)
  show "in_quote (raw_map_step s ch) = (if ch = dquote then \<not> in_quote s else in_quote s)"
    by (rule raw_map_step_in_quote)
  show "length (raw_map_to_list data) = Suc (line_breaks False data)"
    by (rule length_raw_map_to_list)
  show \<open>raw_map_to_list ''{a="x,y",b=2}'' = [''{'', tab # ''a="x,y",'', tab # ''b=2'', ''}'']\<close>
    by (simp add: pre_eval)
  show \<open>Loader fl ''{a="x,y",b=2}'' =
     Some (Inr (PDict [(''a'', PStr ''"x,y"''), (''b'', PInt 2)]),
           \<lparr>parsed_map = raw_map_to_list ''{a="x,y",b=2}'', counter = 4, printed = [],
              reads = [1, 2, 3]\<rparr>)\<close>
    by (simp add: pre_eval reader_eval)
qed

text \<open>
  C10. Every line the reader works on comes from \<^verbatim>\<open>get_next_line\<close>, which strips the
  whitespace at both ends and then every trailing comma. So the line does not end in a
  comma: neither does the scalar token of the list loop, which is the line itself, nor the
  text after the first \<open>=\<close> that the dict loop coerces; and the key is the text before that
  first \<open>=\<close>, away from the end of the line.
\<close>

theorem C10_line_stripped_before_use:
  assumes "get_next_line st = (Inr line, st')"
  shows "line = rstrip_comma (strip (parsed_map st ! counter st)) \<and>
         (line = [] \<or> last line \<noteq> CHR '','') \<and>
         (CHR ''='' \<in> set line \<longrightarrow>
            line = hd (split_on CHR ''='' line) @ CHR ''='' # join CHR ''='' (tl (split_on CHR ''='' line)) \<and>
            CHR ''='' \<notin> set (hd (split_on CHR ''='' line)) \<and>
            (join CHR ''='' (tl (split_on CHR ''='' line)) = [] \<or>
             last (join CHR ''='' (tl (split_on CHR ''='' line))) \<noteq> CHR '',''))"
proof (intro conjI impI)
  from get_next_line_Inr [OF assms]
  show l: "line = rstrip_comma (strip (parsed_map st ! counter st))" by simp
  from rstrip_comma_last [of "strip (parsed_map st ! counter st)"] l
  show e: "line = [] \<or> last line \<noteq> CHR '',''" by simp
  assume eq: "CHR ''='' \<in> set line"
  from split_on_key_data [OF eq]
  show kd: "line = hd (split_on CHR ''='' line) @ CHR ''='' # join CHR ''='' (tl (split_on CHR ''='' line))" .
  show "CHR ''='' \<notin> set (hd (split_on CHR ''='' line))"
    using set_takeWhileD [of "CHR ''=''" "\<lambda>c. c \<noteq> CHR ''=''" line] by (auto simp: hd_split_on)
  show "join CHR ''='' (tl (split_on CHR ''='' line)) = [] \<or>
        last (join CHR ''='' (tl (split_on CHR ''='' line))) \<noteq> CHR '',''"
  proof (cases "join CHR ''='' (tl (split_on CHR ''='' line)) = []")
    case True
    then show ?thesis by simp
  next
    case False
    have "last (hd (split_on CHR ''='' line) @ CHR ''='' # join CHR ''='' (tl (split_on CHR ''='' line))) =
          last (join CHR ''='' (tl (split_on CHR ''='' line)))"
      using False by simp
    with kd have "last line = last (join CHR ''='' (tl (split_on CHR ''='' line)))" by simp
    moreover from kd have "line \<noteq> []" by auto
    ultimately show ?thesis using e by simp
  qed
qed

theorem C10_line_stripped_before_use_witness:
  "get_next_line (loader_init ''{a=1,b=2}'') =
     (Inr ''a=1'',
      \<lparr>parsed_map = raw_map_to_list ''{a=1,b=2}'', counter = 2, printed = [], reads = [1]\<rparr>) \<and>
   parsed_map (loader_init ''{a=1,b=2}'') ! counter (loader_init ''{a=1,b=2}'') = tab # ''a=1,'' \<and>
   ''a=1'' = rstrip_comma (strip (parsed_map (loader_init ''{a=1,b=2}'') !
                                   counter (loader_init ''{a=1,b=2}''))) \<and>
   last ''a=1'' \<noteq> CHR '','' \<and>
   CHR ''='' \<in> set ''a=1'' \<and>
   hd (split_on CHR ''='' ''a=1'') = ''a'' \<and>
   join CHR ''='' (tl (split_on CHR ''='' ''a=1'')) = ''1''"
proof -
  have h: "get_next_line (loader_init ''{a=1,b=2}'') =
     (Inr ''a=1'',
      \<lparr>parsed_map = raw_map_to_list ''{a=1,b=2}'', counter = 2, printed = [], reads = [1]\<rparr>)"
    by (simp add: pre_eval reader_eval)
  have l: "parsed_map (loader_init ''{a=1,b=2}'') ! counter (loader_init ''{a=1,b=2}'') =
      tab # ''a=1,''"
    by (simp add: pre_eval loader_init_def)
  from C10_line_stripped_before_use [OF h]
  have r: "''a=1'' = rstrip_comma (strip (parsed_map (loader_init ''{a=1,b=2}'') !
                                   counter (loader_init ''{a=1,b=2}'')))" by blast
  have e: "last ''a=1'' \<noteq> CHR '',''" "CHR ''='' \<in> set ''a=1''"
    "hd (split_on CHR ''='' ''a=1'') = ''a''" "join CHR ''='' (tl (split_on CHR ''='' ''a=1'')) = ''1''"
    by simp_all
  from h l r e show ?thesis by blast
qed

end
